theory Spec2Isabelle
  imports Main
begin

section \<open>The extension's state and the host it runs on\<close>

text \<open>
  The source is one module, \<^verbatim>\<open>src/extension.ts\<close>, with two module-level variables,
  \<^verbatim>\<open>currentPanel\<close> and \<^verbatim>\<open>debounceTimer\<close>. Everything else it touches belongs to
  the host: the timer queue of the event loop (\<^verbatim>\<open>setTimeout\<close>, \<^verbatim>\<open>clearTimeout\<close>),
  the webview panels, the command registry, the file system watchers and the console.
  The model keeps both in one record and passes it through every function.

  Time is logical, in milliseconds. A timer fires at its due time; timers that are due
  fire in the order of their due times, and timers with the same due time fire in the
  order they were scheduled.
\<close>

datatype callback =
    ShowCb        \<comment> \<open>the closure of \<^verbatim>\<open>triggerYouPushed\<close>: calls \<^verbatim>\<open>showYouPushedMessage\<close>\<close>
  | AutoCloseCb   \<comment> \<open>the closure of \<^verbatim>\<open>showYouPushedMessage\<close>: closes \<^verbatim>\<open>currentPanel\<close>\<close>

datatype timer = Timer (tid: nat) (due: nat) (cb: callback)

datatype obs =
    Created nat nat     \<comment> \<open>panel id, time: \<^verbatim>\<open>createWebviewPanel\<close> returned this panel\<close>
  | Disposed nat nat    \<comment> \<open>panel id, time: a live panel was disposed\<close>
  | Redundant nat nat   \<comment> \<open>panel id, time: \<^verbatim>\<open>dispose\<close> was called on a panel already disposed\<close>

datatype handler =
    TestHandler         \<comment> \<open>the handler of \<^verbatim>\<open>you-pushed.test\<close>\<close>
  | WrapHandler string  \<comment> \<open>the handler of \<^verbatim>\<open>you-pushed.wrap.<commandId>\<close>, closed over \<^verbatim>\<open>commandId\<close>\<close>

record state =
  now :: nat
  currentPanel :: "nat option"
  debounceTimer :: "nat option"
  timers :: "timer list"
  nextTimerId :: nat
  nextPanelId :: nat
  livePanels :: "nat list"
  trace :: "obs list"
  detections :: nat
  commands :: "(string \<times> handler) list"
  watchers :: "string list"
  stateListeners :: "nat list"
  operationListeners :: "nat list"
  gitCommandListeners :: "nat list"
  openRepositoryListener :: bool
  console :: "string list"

definition init :: state where
  "init = \<lparr> now = 0, currentPanel = None, debounceTimer = None, timers = [],
            nextTimerId = 0, nextPanelId = 0, livePanels = [], trace = [],
            detections = 0, commands = [], watchers = [], stateListeners = [],
            operationListeners = [], gitCommandListeners = [],
            openRepositoryListener = False, console = [] \<rparr>"

subsection \<open>Timers\<close>

fun enqueue :: "timer \<Rightarrow> timer list \<Rightarrow> timer list" where
  "enqueue x [] = [x]"
| "enqueue x (y # ys) = (if due y \<le> due x then y # enqueue x ys else x # y # ys)"

definition setTimeout :: "callback \<Rightarrow> nat \<Rightarrow> state \<Rightarrow> nat \<times> state" where
  "setTimeout c delay s =
     (nextTimerId s,
      s\<lparr> timers := enqueue (Timer (nextTimerId s) (now s + delay) c) (timers s),
         nextTimerId := Suc (nextTimerId s) \<rparr>)"

definition clearTimeout :: "nat \<Rightarrow> state \<Rightarrow> state" where
  "clearTimeout i s = s\<lparr> timers := filter (\<lambda>tm. tid tm \<noteq> i) (timers s) \<rparr>"

subsection \<open>Webview panels\<close>

text \<open>
  \<^verbatim>\<open>currentPanel.onDidDispose(() => { currentPanel = undefined; })\<close> (lines 207 to 209):
  every panel is created with this listener, which clears the module variable whichever
  panel it was registered on.
\<close>

definition onDidDispose :: "state \<Rightarrow> state" where
  "onDidDispose s = s\<lparr> currentPanel := None \<rparr>"

text \<open>
  \<^verbatim>\<open>panel.dispose()\<close> of the host: on a live panel it removes the panel and fires its
  dispose listeners, synchronously; on a panel already disposed it does nothing. The
  trace records which of the two a call was.
\<close>

definition dispose :: "nat \<Rightarrow> state \<Rightarrow> state" where
  "dispose p s =
     (if p \<in> set (livePanels s)
      then onDidDispose (s\<lparr> livePanels := removeAll p (livePanels s),
                            trace := trace s @ [Disposed p (now s)] \<rparr>)
      else s\<lparr> trace := trace s @ [Redundant p (now s)] \<rparr>)"

definition createWebviewPanel :: "state \<Rightarrow> nat \<times> state" where
  "createWebviewPanel s =
     (nextPanelId s,
      s\<lparr> livePanels := livePanels s @ [nextPanelId s],
         nextPanelId := Suc (nextPanelId s),
         trace := trace s @ [Created (nextPanelId s) (now s)] \<rparr>)"

subsection \<open>The functions of the source\<close>

text \<open>
  \<^verbatim>\<open>showYouPushedMessage\<close>, lines 180 to 210. The html given to the panel is a constant
  string and is left out. The dispose listener registered last is the one \<open>dispose\<close>
  fires.
\<close>

definition showYouPushedMessage :: "state \<Rightarrow> state" where
  "showYouPushedMessage s =
     (let s1 = (case currentPanel s of Some p \<Rightarrow> dispose p s | None \<Rightarrow> s);
          (q, s2) = createWebviewPanel s1;
          s3 = s2\<lparr> currentPanel := Some q \<rparr>
      in snd (setTimeout AutoCloseCb 5000 s3))"

text \<open>The callback of the timer set at line 199.\<close>

definition autoClose :: "state \<Rightarrow> state" where
  "autoClose s =
     (case currentPanel s of
        Some p \<Rightarrow> (dispose p s)\<lparr> currentPanel := None \<rparr>
      | None \<Rightarrow> s)"

text \<open>
  \<^verbatim>\<open>triggerYouPushed\<close>, lines 169 to 178. The variable keeps the handle of a timer
  that has fired; clearing such a handle changes nothing. \<open>detections\<close> counts the calls.
\<close>

definition triggerYouPushed :: "state \<Rightarrow> state" where
  "triggerYouPushed s =
     (let s0 = s\<lparr> detections := Suc (detections s) \<rparr>;
          s1 = (case debounceTimer s0 of Some i \<Rightarrow> clearTimeout i s0 | None \<Rightarrow> s0);
          (i, s2) = setTimeout ShowCb 500 s1
      in s2\<lparr> debounceTimer := Some i \<rparr>)"

text \<open>\<^verbatim>\<open>deactivate\<close>, lines 352 to 359.\<close>

definition deactivate :: "state \<Rightarrow> state" where
  "deactivate s =
     (let s1 = (case currentPanel s of Some p \<Rightarrow> dispose p s | None \<Rightarrow> s)
      in (case debounceTimer s1 of Some i \<Rightarrow> clearTimeout i s1 | None \<Rightarrow> s1))"

text \<open>The user closes the panel on screen: the host disposes it.\<close>

definition userClose :: "state \<Rightarrow> state" where
  "userClose s = (case livePanels s of [] \<Rightarrow> s | p # _ \<Rightarrow> dispose p s)"

subsection \<open>The event loop\<close>

fun fire :: "callback \<Rightarrow> state \<Rightarrow> state" where
  "fire ShowCb s = showYouPushedMessage s"
| "fire AutoCloseCb s = autoClose s"

fun weight :: "timer list \<Rightarrow> nat" where
  "weight [] = 0"
| "weight (tm # tms) = (case cb tm of ShowCb \<Rightarrow> 2 | AutoCloseCb \<Rightarrow> 1) + weight tms"

text \<open>
  \<open>advance t\<close> lets the clock run to \<open>t\<close>: every timer due by then fires, at its due
  time, earliest first. A show callback schedules a new timer, which fires in the same
  run when it is due by \<open>t\<close> too.
\<close>

function advance :: "nat \<Rightarrow> state \<Rightarrow> state" where
  "advance t s =
     (case timers s of
        [] \<Rightarrow> s\<lparr> now := t \<rparr>
      | tm # rest \<Rightarrow>
          if due tm \<le> t
          then advance t (fire (cb tm) (s\<lparr> timers := rest, now := due tm \<rparr>))
          else s\<lparr> now := t \<rparr>)"
  by pat_completeness auto
termination
proof (relation "measure (\<lambda>(t, s). weight (timers s))")
  show "wf (measure (\<lambda>(t, s). weight (timers s)))" by simp
next
  fix t :: nat and s :: state and tm rest
  assume a: "timers s = tm # rest" "due tm \<le> t"
  have enq: "weight (enqueue x xs) = (case cb x of ShowCb \<Rightarrow> 2 | AutoCloseCb \<Rightarrow> 1) + weight xs"
    for x xs
    by (induction xs) auto
  have "weight (timers (fire c (s\<lparr> timers := rest, now := due tm \<rparr>)))
          < (case c of ShowCb \<Rightarrow> 2 | AutoCloseCb \<Rightarrow> 1) + weight rest" for c
    by (cases c)
       (auto simp: showYouPushedMessage_def autoClose_def createWebviewPanel_def dispose_def
          onDidDispose_def setTimeout_def enq Let_def split: option.splits)
  from this [of "cb tm"] a
  show "((t, fire (cb tm) (s\<lparr> timers := rest, now := due tm \<rparr>)), (t, s))
          \<in> measure (\<lambda>(t, s). weight (timers s))"
    by simp
qed

declare advance.simps [simp del]

text \<open>
  What can happen between timers. A detection is any call of \<^verbatim>\<open>triggerYouPushed\<close>
  by a listener: of a file system watcher, of a repository, or a wrapper command whose
  command succeeded.
\<close>

datatype event =
    Detection     \<comment> \<open>a detection source calls \<^verbatim>\<open>triggerYouPushed\<close>\<close>
  | TestCommand   \<comment> \<open>\<^verbatim>\<open>you-pushed.test\<close>: calls \<^verbatim>\<open>showYouPushedMessage\<close>\<close>
  | UserClose     \<comment> \<open>the user closes the panel\<close>
  | Shutdown      \<comment> \<open>the host calls \<^verbatim>\<open>deactivate\<close>\<close>

fun handle :: "event \<Rightarrow> state \<Rightarrow> state" where
  "handle Detection s = triggerYouPushed s"
| "handle TestCommand s = showYouPushedMessage s"
| "handle UserClose s = userClose s"
| "handle Shutdown s = deactivate s"

text \<open>
  A run is a list of events, each with the time elapsed since the one before it. A timer
  due at the very moment of an event fires before the event is handled.
\<close>

definition idle :: "nat \<Rightarrow> state \<Rightarrow> state" where
  "idle d s = advance (now s + d) s"

fun run :: "(nat \<times> event) list \<Rightarrow> state \<Rightarrow> state" where
  "run [] s = s"
| "run ((gap, e) # evs) s = run evs (handle e (idle gap s))"


subsection \<open>Activation\<close>

text \<open>
  What activation reads from the host: the workspace folders (\<^verbatim>\<open>undefined\<close> when no
  folder is open), each by its \<^verbatim>\<open>uri.fsPath\<close>; \<^verbatim>\<open>path.join\<close>, which is Node's and
  depends on the platform, taken as it is given; \<^verbatim>\<open>fs.existsSync\<close>; and
  \<^verbatim>\<open>vscode.extensions.getExtension\<close>. The git
  extension is the host's, not this repository's: its \<^verbatim>\<open>activate()\<close> may reject and its
  \<^verbatim>\<open>getAPI\<close> may throw or return nothing, and the model takes each outcome as given.
  A repository object may or may not offer \<^verbatim>\<open>onDidRunOperation\<close> and
  \<^verbatim>\<open>onDidRunGitCommand\<close>.
\<close>

type_synonym error = string

datatype repository =
  Repository (repoId: nat) (hasOnDidRunOperation: bool) (hasOnDidRunGitCommand: bool)

type_synonym git_api = "repository list"

type_synonym git_exports = "nat \<Rightarrow> error + git_api option"

datatype git_extension =
  GitExtension (isActive: bool) (exports: git_exports) (activateExtension: "error + git_exports")

record environment =
  workspaceFolders :: "string list option"
  pathJoin :: "string list \<Rightarrow> string"
  existsSync :: "string \<Rightarrow> bool"
  getExtension :: "string \<Rightarrow> git_extension option"

definition log :: "string \<Rightarrow> state \<Rightarrow> state" where
  "log msg s = s\<lparr> console := console s @ [msg] \<rparr>"

text \<open>
  \<^verbatim>\<open>vscode.commands.registerCommand\<close>. The host refuses an id that is registered
  already; the ids activation registers are distinct, and the refusal is left out. The
  list \<^verbatim>\<open>context.subscriptions\<close> is left out as well.
\<close>

definition registerCommand :: "string \<Rightarrow> handler \<Rightarrow> state \<Rightarrow> state" where
  "registerCommand name h s = s\<lparr> commands := commands s @ [(name, h)] \<rparr>"

text \<open>\<^verbatim>\<open>watchRepository\<close>, lines 91 to 129: which listeners it attaches to a repository.\<close>

definition watchRepository :: "repository \<Rightarrow> state \<Rightarrow> state" where
  "watchRepository repo s =
     (let s1 = s\<lparr> stateListeners := stateListeners s @ [repoId repo] \<rparr>;
          s2 = (if hasOnDidRunOperation repo
                then s1\<lparr> operationListeners := operationListeners s1 @ [repoId repo] \<rparr>
                else s1)
      in if hasOnDidRunGitCommand repo
         then s2\<lparr> gitCommandListeners := gitCommandListeners s2 @ [repoId repo] \<rparr>
         else s2)"

text \<open>
  \<^verbatim>\<open>setupGitExtensionListener\<close>, lines 62 to 89. It is an \<^verbatim>\<open>async\<close> function: the
  result is how its promise settles, \<open>Inl\<close> for a rejection. The model runs it to its
  end at the call, also when it awaits the activation of the git extension.
\<close>

definition setupGitExtensionListener :: "environment \<Rightarrow> state \<Rightarrow> (error + unit) \<times> state" where
  "setupGitExtensionListener env s =
     (case getExtension env ''vscode.git'' of
        None \<Rightarrow> (Inr (), log ''Git extension not found'' s)
      | Some gitExtension \<Rightarrow>
          (case (if isActive gitExtension then Inr (exports gitExtension)
                 else activateExtension gitExtension) of
             Inl err \<Rightarrow> (Inl err, s)
           | Inr git \<Rightarrow>
               (case git 1 of
                  Inl err \<Rightarrow> (Inl err, s)
                | Inr None \<Rightarrow> (Inr (), log ''Git API not available'' s)
                | Inr (Some api) \<Rightarrow>
                    (Inr (), (fold watchRepository api s)\<lparr> openRepositoryListener := True \<rparr>))))"

definition pushCommands :: "string list" where
  "pushCommands = [''git.push'', ''git.pushForce'', ''git.pushTo'', ''git.pushWithTags'',
                   ''git.sync'', ''git.syncRebase'', ''git.publish'']"

definition wrapName :: "string \<Rightarrow> string" where
  "wrapName commandId = ''you-pushed.wrap.'' @ commandId"

fun registerWrappers :: "string list \<Rightarrow> state \<Rightarrow> state" where
  "registerWrappers [] s = s"
| "registerWrappers (commandId # rest) s =
     registerWrappers rest (registerCommand (wrapName commandId) (WrapHandler commandId) s)"

text \<open>
  \<^verbatim>\<open>setupGitCommandHooks\<close>, lines 24 to 60. The promise of
  \<^verbatim>\<open>setupGitExtensionListener\<close> is dropped, however it settles.
\<close>

definition setupGitCommandHooks :: "environment \<Rightarrow> state \<Rightarrow> state" where
  "setupGitCommandHooks env s =
     snd (setupGitExtensionListener env (registerWrappers pushCommands s))"

text \<open>
  \<^verbatim>\<open>path.join(folder.uri.fsPath, '.git', 'logs', 'refs', 'remotes')\<close>, line 138, and the
  loop over the folders, lines 137 to 166.
\<close>

definition remotesPath :: "environment \<Rightarrow> string \<Rightarrow> string" where
  "remotesPath env folder = pathJoin env [folder, ''.git'', ''logs'', ''refs'', ''remotes'']"

fun watchFolders :: "environment \<Rightarrow> string list \<Rightarrow> state \<Rightarrow> state" where
  "watchFolders env [] s = s"
| "watchFolders env (folder # rest) s =
     (if \<not> existsSync env (remotesPath env folder)
      then watchFolders env rest
             (log (''No git remotes directory found at: '' @ remotesPath env folder) s)
      else watchFolders env rest
             (log (''Watching for git pushes in: '' @ remotesPath env folder)
                (s\<lparr> watchers := watchers s @ [folder] \<rparr>)))"

text \<open>\<^verbatim>\<open>setupGitPushWatcher\<close>, lines 131 to 167.\<close>

definition setupGitPushWatcher :: "environment \<Rightarrow> state \<Rightarrow> state" where
  "setupGitPushWatcher env s =
     (case workspaceFolders env of
        None \<Rightarrow> s
      | Some folders \<Rightarrow> watchFolders env folders s)"

text \<open>\<^verbatim>\<open>activate\<close>, lines 8 to 22.\<close>

definition activate :: "environment \<Rightarrow> state \<Rightarrow> state" where
  "activate env s =
     (let s1 = log ''You Pushed extension is now active!'' s;
          s2 = registerCommand ''you-pushed.test'' TestHandler s1;
          s3 = setupGitPushWatcher env s2
      in setupGitCommandHooks env s3)"

subsection \<open>What the registered handlers do\<close>

text \<open>
  The watcher of a folder reports the files under its remotes log directory; the source
  listens to changes and creations only (lines 156 to 162).
\<close>

datatype file_event = Change | Create | Delete


text \<open>
  The handler of a wrapper command, lines 40 to 51. \<open>executeCommand\<close> is the host's:
  \<open>Inl\<close> is the error the awaited promise rejects with. The state is the one in which
  the awaited command settles.
\<close>

definition wrapper ::
  "(string \<Rightarrow> 'a \<Rightarrow> error + 'r) \<Rightarrow> string \<Rightarrow> 'a \<Rightarrow> state \<Rightarrow> (error + unit) \<times> state" where
  "wrapper executeCommand commandId args s =
     (case executeCommand commandId args of
        Inr _ \<Rightarrow> (Inr (), triggerYouPushed s)
      | Inl err \<Rightarrow> (Inl err, log (''Git command '' @ commandId @ '' failed: '' @ err) s))"

text \<open>Invoking a command by its id runs the handler registered under it, if any.\<close>

definition invoke ::
  "(string \<Rightarrow> 'a \<Rightarrow> error + 'r) \<Rightarrow> string \<Rightarrow> 'a \<Rightarrow> state \<Rightarrow> ((error + unit) \<times> state) option" where
  "invoke executeCommand name args s =
     (case map_of (commands s) name of
        None \<Rightarrow> None
      | Some TestHandler \<Rightarrow> Some (Inr (), showYouPushedMessage s)
      | Some (WrapHandler commandId) \<Rightarrow> Some (wrapper executeCommand commandId args s))"

section \<open>Observations and invariants\<close>

text \<open>
  What the properties below speak about: the timers still pending, by callback; the times
  at which a panel was shown; the number of panels alive after a trace; the calls of
  \<^verbatim>\<open>dispose\<close> on a panel already disposed.
\<close>

definition pendingShows :: "state \<Rightarrow> timer list" where
  "pendingShows s = filter (\<lambda>tm. cb tm = ShowCb) (timers s)"

definition pendingAutoClose :: "state \<Rightarrow> timer list" where
  "pendingAutoClose s = filter (\<lambda>tm. cb tm = AutoCloseCb) (timers s)"

fun shownAt :: "obs \<Rightarrow> nat list" where
  "shownAt (Created p t) = [t]"
| "shownAt (Disposed p t) = []"
| "shownAt (Redundant p t) = []"

definition notifications :: "state \<Rightarrow> nat list" where
  "notifications s = concat (map shownAt (trace s))"

fun delta :: "obs \<Rightarrow> int" where
  "delta (Created p t) = 1"
| "delta (Disposed p t) = - 1"
| "delta (Redundant p t) = 0"

definition live_count :: "obs list \<Rightarrow> int" where
  "live_count tr = sum_list (map delta tr)"

fun isRedundant :: "obs \<Rightarrow> bool" where
  "isRedundant (Redundant p t) = True"
| "isRedundant (Created p t) = False"
| "isRedundant (Disposed p t) = False"

definition doubleDisposals :: "state \<Rightarrow> obs list" where
  "doubleDisposals s = filter isRedundant (trace s)"

definition peak_ok :: "obs list \<Rightarrow> bool" where
  "peak_ok tr = (\<forall>k. live_count (take k tr) \<le> 1)"

definition inv_surface :: "state \<Rightarrow> bool" where
  "inv_surface s =
     (livePanels s = (case currentPanel s of None \<Rightarrow> [] | Some p \<Rightarrow> [p]) \<and>
      live_count (trace s) = int (length (livePanels s)) \<and>
      peak_ok (trace s) \<and>
      doubleDisposals s = [])"

definition inv_queue :: "state \<Rightarrow> bool" where
  "inv_queue s =
     (sorted (map due (timers s)) \<and>
      (pendingShows s = [] \<or> (\<exists>tm. pendingShows s = [tm] \<and> debounceTimer s = Some (tid tm))))"

definition inv_ids :: "state \<Rightarrow> bool" where
  "inv_ids s =
     ((\<forall>tm \<in> set (timers s). tid tm < nextTimerId s) \<and>
      (\<forall>i. debounceTimer s = Some i \<longrightarrow>
         i < nextTimerId s \<and> (\<forall>tm \<in> set (timers s). tid tm = i \<longrightarrow> cb tm = ShowCb)))"

definition inv :: "state \<Rightarrow> bool" where
  "inv s = (inv_surface s \<and> inv_queue s \<and> inv_ids s)"

text \<open>
  The fields of the state that activation and logging leave alone: the two module
  variables, the timers, the panels and the trace.
\<close>

definition runtime ::
  "state \<Rightarrow> nat \<times> nat option \<times> nat option \<times> timer list \<times> nat \<times> nat \<times> nat list \<times> obs list \<times> nat" where
  "runtime s = (now s, currentPanel s, debounceTimer s, timers s, nextTimerId s, nextPanelId s,
                livePanels s, trace s, detections s)"

text \<open>The wrapper commands a state has registered: the id registered and the id wrapped.\<close>

fun wrapped :: "string \<times> handler \<Rightarrow> (string \<times> string) list" where
  "wrapped (name, WrapHandler commandId) = [(name, commandId)]"
| "wrapped (name, TestHandler) = []"

definition wrapperCommands :: "state \<Rightarrow> (string \<times> string) list" where
  "wrapperCommands s = concat (map wrapped (commands s))"

text \<open>
  The enumeration of the specification, section 4.2, in the identifiers the source gives
  these operations: force-push, push-to, push-with-tags, sync, sync-with-rebase, publish.
\<close>

definition specPushLike :: "string list" where
  "specPushLike = [''git.pushForce'', ''git.pushTo'', ''git.pushWithTags'',
                   ''git.sync'', ''git.syncRebase'', ''git.publish'']"

text \<open>
  Hosts to evaluate activation on. Their \<^verbatim>\<open>path.join\<close> puts a slash between the
  segments, which is what Node's does on a POSIX host for an absolute folder name with
  no trailing slash followed by plain names. The hosts are: no folder open and no git
  extension; two folders of which \<^verbatim>\<open>/repo\<close> has a remotes log directory, no git
  extension; the git extension installed and not yet active, whose \<^verbatim>\<open>getAPI(1)\<close>
  returns nothing; the git extension active, whose \<^verbatim>\<open>getAPI(1)\<close> throws; the git
  extension not yet active, whose activation rejects. And a host \<^verbatim>\<open>executeCommand\<close>
  under which \<^verbatim>\<open>git.push\<close> succeeds and every other command is rejected.
\<close>

fun joinSlash :: "string list \<Rightarrow> string" where
  "joinSlash [] = ''.''"
| "joinSlash [x] = x"
| "joinSlash (x # y # ys) = x @ ''/'' @ joinSlash (y # ys)"

definition noWorkspace :: environment where
  "noWorkspace = \<lparr> workspaceFolders = None, pathJoin = joinSlash,
                   existsSync = (\<lambda>p. False), getExtension = (\<lambda>name. None) \<rparr>"

definition repoWithoutGit :: environment where
  "repoWithoutGit = \<lparr> workspaceFolders = Some [''/repo'', ''/scratch''],
                     pathJoin = joinSlash,
                     existsSync = (\<lambda>p. p = ''/repo/.git/logs/refs/remotes''),
                     getExtension = (\<lambda>name. None) \<rparr>"




definition settles :: "string \<Rightarrow> string list \<Rightarrow> error + unit" where
  "settles commandId args = (if commandId = ''git.push'' then Inr () else Inl ''rejected'')"

text \<open>
  A burst of detection events, given by the gaps between them, and the times at which
  events with these gaps arrive, counted from \<open>t\<close>.
\<close>

definition detectionEvents :: "nat list \<Rightarrow> (nat \<times> event) list" where
  "detectionEvents gs = map (\<lambda>g. (g, Detection)) gs"

fun arrivals :: "nat \<Rightarrow> nat list \<Rightarrow> nat list" where
  "arrivals t [] = []"
| "arrivals t (g # gs) = (t + g) # arrivals (t + g) gs"

section \<open>The timer queue and the panel invariants\<close>

subsection \<open>The queue\<close>

lemma set_enqueue: "set (enqueue x xs) = insert x (set xs)"
  by (induction xs) auto

lemma sorted_enqueue: "sorted (map due xs) \<Longrightarrow> sorted (map due (enqueue x xs))"
  by (induction xs) (auto simp: set_enqueue)

lemma filter_enqueue_out: "\<not> P x \<Longrightarrow> filter P (enqueue x xs) = filter P xs"
  by (induction xs) auto

lemma filter_enqueue_in: "P x \<Longrightarrow> filter P xs = [] \<Longrightarrow> filter P (enqueue x xs) = [x]"
  by (induction xs) (auto split: if_splits)

lemma sorted_filter_due: "sorted (map due xs) \<Longrightarrow> sorted (map due (filter P xs))"
  by (induction xs) auto

lemma live_count_snoc: "live_count (tr @ [e]) = live_count tr + delta e"
  by (simp add: live_count_def)

lemma peak_ok_Nil: "peak_ok []"
  by (simp add: peak_ok_def live_count_def)

lemma peak_ok_snoc: "peak_ok (tr @ [e]) = (peak_ok tr \<and> live_count tr + delta e \<le> 1)"
proof
  assume a: "peak_ok (tr @ [e])"
  have "live_count (take k tr) \<le> 1" for k
    using a [unfolded peak_ok_def, rule_format, of "min k (length tr)"]
    by (cases "k \<le> length tr") (simp_all add: min_def)
  moreover have "live_count (tr @ [e]) \<le> 1"
    using a [unfolded peak_ok_def, rule_format, of "Suc (length tr)"] by simp
  ultimately show "peak_ok tr \<and> live_count tr + delta e \<le> 1"
    by (simp add: peak_ok_def live_count_snoc)
next
  assume a: "peak_ok tr \<and> live_count tr + delta e \<le> 1"
  show "peak_ok (tr @ [e])"
    unfolding peak_ok_def
  proof
    fix k
    show "live_count (take k (tr @ [e])) \<le> 1"
    proof (cases "k \<le> length tr")
      case True
      then show ?thesis using a by (simp add: peak_ok_def)
    next
      case False
      then show ?thesis using a by (simp add: live_count_snoc)
    qed
  qed
qed

subsection \<open>At most one panel, no second disposal\<close>

lemma inv_surface_show: "inv_surface s \<Longrightarrow> inv_surface (showYouPushedMessage s)"
  unfolding inv_surface_def showYouPushedMessage_def
  by (auto simp: createWebviewPanel_def setTimeout_def dispose_def onDidDispose_def
        doubleDisposals_def live_count_snoc Let_def simp: peak_ok_snoc split: option.splits)

lemma inv_surface_autoClose: "inv_surface s \<Longrightarrow> inv_surface (autoClose s)"
  unfolding inv_surface_def autoClose_def
  by (auto simp: dispose_def onDidDispose_def
        doubleDisposals_def live_count_snoc Let_def simp: peak_ok_snoc split: option.splits)

lemma inv_surface_trigger: "inv_surface s \<Longrightarrow> inv_surface (triggerYouPushed s)"
  unfolding inv_surface_def triggerYouPushed_def
  by (auto simp: setTimeout_def clearTimeout_def doubleDisposals_def Let_def peak_ok_snoc split: option.splits)

lemma inv_surface_deactivate: "inv_surface s \<Longrightarrow> inv_surface (deactivate s)"
  unfolding inv_surface_def deactivate_def
  by (auto simp: dispose_def onDidDispose_def clearTimeout_def
        doubleDisposals_def live_count_snoc Let_def simp: peak_ok_snoc split: option.splits)

lemma inv_surface_userClose: "inv_surface s \<Longrightarrow> inv_surface (userClose s)"
  unfolding inv_surface_def userClose_def
  by (auto simp: dispose_def onDidDispose_def
        doubleDisposals_def live_count_snoc Let_def simp: peak_ok_snoc split: option.splits list.splits)


subsection \<open>What each function leaves alone\<close>

lemma dispose_frame [simp]:
  "timers (dispose p s) = timers s" "debounceTimer (dispose p s) = debounceTimer s"
  "now (dispose p s) = now s" "nextTimerId (dispose p s) = nextTimerId s"
  "nextPanelId (dispose p s) = nextPanelId s" "detections (dispose p s) = detections s"
  "commands (dispose p s) = commands s" "watchers (dispose p s) = watchers s"
  by (simp_all add: dispose_def onDidDispose_def)

lemma show_frame [simp]:
  "timers (showYouPushedMessage s)
     = enqueue (Timer (nextTimerId s) (now s + 5000) AutoCloseCb) (timers s)"
  "debounceTimer (showYouPushedMessage s) = debounceTimer s"
  "now (showYouPushedMessage s) = now s"
  "nextTimerId (showYouPushedMessage s) = Suc (nextTimerId s)"
  "nextPanelId (showYouPushedMessage s) = Suc (nextPanelId s)"
  "currentPanel (showYouPushedMessage s) = Some (nextPanelId s)"
  "detections (showYouPushedMessage s) = detections s"
  "commands (showYouPushedMessage s) = commands s"
  "watchers (showYouPushedMessage s) = watchers s"
  by (simp_all add: showYouPushedMessage_def createWebviewPanel_def setTimeout_def Let_def
        split: option.splits)

lemma autoClose_frame [simp]:
  "timers (autoClose s) = timers s" "debounceTimer (autoClose s) = debounceTimer s"
  "now (autoClose s) = now s" "nextTimerId (autoClose s) = nextTimerId s"
  "nextPanelId (autoClose s) = nextPanelId s" "currentPanel (autoClose s) = None"
  "detections (autoClose s) = detections s"
  "commands (autoClose s) = commands s" "watchers (autoClose s) = watchers s"
  by (simp_all add: autoClose_def split: option.splits)

lemma userClose_frame [simp]:
  "timers (userClose s) = timers s" "debounceTimer (userClose s) = debounceTimer s"
  "now (userClose s) = now s" "nextTimerId (userClose s) = nextTimerId s"
  "nextPanelId (userClose s) = nextPanelId s" "detections (userClose s) = detections s"
  "commands (userClose s) = commands s" "watchers (userClose s) = watchers s"
  by (simp_all add: userClose_def split: list.splits)

lemma trigger_frame [simp]:
  "timers (triggerYouPushed s)
     = enqueue (Timer (nextTimerId s) (now s + 500) ShowCb)
         (case debounceTimer s of Some i \<Rightarrow> filter (\<lambda>tm. tid tm \<noteq> i) (timers s)
          | None \<Rightarrow> timers s)"
  "debounceTimer (triggerYouPushed s) = Some (nextTimerId s)"
  "now (triggerYouPushed s) = now s"
  "nextTimerId (triggerYouPushed s) = Suc (nextTimerId s)"
  "nextPanelId (triggerYouPushed s) = nextPanelId s"
  "currentPanel (triggerYouPushed s) = currentPanel s"
  "livePanels (triggerYouPushed s) = livePanels s"
  "trace (triggerYouPushed s) = trace s"
  "detections (triggerYouPushed s) = Suc (detections s)"
  "commands (triggerYouPushed s) = commands s" "watchers (triggerYouPushed s) = watchers s"
  by (simp_all add: triggerYouPushed_def setTimeout_def clearTimeout_def Let_def
        split: option.splits)

lemma deactivate_frame [simp]:
  "timers (deactivate s)
     = (case debounceTimer s of Some i \<Rightarrow> filter (\<lambda>tm. tid tm \<noteq> i) (timers s)
        | None \<Rightarrow> timers s)"
  "debounceTimer (deactivate s) = debounceTimer s"
  "now (deactivate s) = now s" "nextTimerId (deactivate s) = nextTimerId s"
  "nextPanelId (deactivate s) = nextPanelId s" "detections (deactivate s) = detections s"
  "commands (deactivate s) = commands s" "watchers (deactivate s) = watchers s"
  by (simp_all add: deactivate_def clearTimeout_def Let_def split: option.splits)

subsection \<open>One pending show at most, and it is the debounce timer\<close>

lemma inv_queue_show: "inv_queue s \<Longrightarrow> inv_queue (showYouPushedMessage s)"
  by (simp add: inv_queue_def pendingShows_def sorted_enqueue filter_enqueue_out)

lemma inv_queue_autoClose: "inv_queue s \<Longrightarrow> inv_queue (autoClose s)"
  by (simp add: inv_queue_def pendingShows_def)

lemma inv_queue_userClose: "inv_queue s \<Longrightarrow> inv_queue (userClose s)"
  by (simp add: inv_queue_def pendingShows_def)

lemma filter_tid_single:
  "filter P xs = [tm] \<Longrightarrow> filter (\<lambda>x. tid x \<noteq> tid tm \<and> P x) xs = []"
proof -
  assume a: "filter P xs = [tm]"
  have "filter (\<lambda>x. tid x \<noteq> tid tm \<and> P x) xs = filter (\<lambda>x. tid x \<noteq> tid tm) (filter P xs)"
    by (induction xs) auto
  with a show ?thesis by simp
qed

lemma filter_conj_Nil: "filter P xs = [] \<Longrightarrow> filter (\<lambda>x. Q x \<and> P x) xs = []"
  by (induction xs) (auto split: if_splits)

lemma pendingShows_cleared:
  assumes "inv_queue s" "debounceTimer s = Some i"
  shows "filter (\<lambda>tm. tid tm \<noteq> i \<and> cb tm = ShowCb) (timers s) = []"
proof (cases "pendingShows s")
  case Nil
  then show ?thesis by (simp add: pendingShows_def filter_conj_Nil)
next
  case (Cons tm rest)
  with assms have "rest = []" "i = tid tm"
    by (auto simp: inv_queue_def)
  with Cons show ?thesis
    using filter_tid_single [of "\<lambda>tm. cb tm = ShowCb" "timers s" tm]
    by (simp add: pendingShows_def)
qed

lemma trigger_pending:
  assumes "inv_queue s"
  shows "pendingShows (triggerYouPushed s) = [Timer (nextTimerId s) (now s + 500) ShowCb]"
proof (cases "debounceTimer s")
  case None
  with assms have "pendingShows s = []"
    by (auto simp: inv_queue_def)
  with None show ?thesis
    by (simp add: pendingShows_def filter_enqueue_in)
next
  case (Some i)
  with assms show ?thesis
    by (simp add: pendingShows_def filter_enqueue_in pendingShows_cleared)
qed

lemma trigger_sorted:
  "sorted (map due (timers s)) \<Longrightarrow> sorted (map due (timers (triggerYouPushed s)))"
  by (simp add: sorted_enqueue sorted_filter_due split: option.splits)

lemma inv_queue_trigger: "inv_queue s \<Longrightarrow> inv_queue (triggerYouPushed s)"
  using trigger_pending [of s] trigger_sorted [of s] by (simp add: inv_queue_def)

lemma deactivate_pending:
  assumes "inv_queue s"
  shows "pendingShows (deactivate s) = []"
proof (cases "debounceTimer s")
  case None
  with assms have "pendingShows s = []"
    by (auto simp: inv_queue_def)
  with None show ?thesis
    by (simp add: pendingShows_def)
next
  case (Some i)
  with assms show ?thesis
    by (simp add: pendingShows_def pendingShows_cleared)
qed

lemma inv_queue_deactivate: "inv_queue s \<Longrightarrow> inv_queue (deactivate s)"
  using deactivate_pending [of s]
  by (simp add: inv_queue_def sorted_filter_due split: option.splits)


subsection \<open>Timer handles are fresh\<close>

lemma inv_ids_show: "inv_ids s \<Longrightarrow> inv_ids (showYouPushedMessage s)"
  by (auto simp: inv_ids_def set_enqueue split: option.splits)

lemma inv_ids_autoClose: "inv_ids s \<Longrightarrow> inv_ids (autoClose s)"
  by (simp add: inv_ids_def)

lemma inv_ids_userClose: "inv_ids s \<Longrightarrow> inv_ids (userClose s)"
  by (simp add: inv_ids_def)

lemma inv_ids_trigger: "inv_ids s \<Longrightarrow> inv_ids (triggerYouPushed s)"
  by (auto simp: inv_ids_def set_enqueue split: option.splits)

lemma inv_ids_deactivate: "inv_ids s \<Longrightarrow> inv_ids (deactivate s)"
  by (auto simp: inv_ids_def split: option.splits)

subsection \<open>Every run keeps the invariants\<close>

lemma inv_init: "inv init"
  by (simp add: inv_def inv_surface_def inv_queue_def inv_ids_def init_def pendingShows_def
        doubleDisposals_def peak_ok_Nil live_count_def)

lemma inv_fire: "inv s \<Longrightarrow> inv (fire c s)"
  by (cases c)
     (simp_all add: inv_def inv_surface_show inv_queue_show inv_ids_show
        inv_surface_autoClose inv_queue_autoClose inv_ids_autoClose)

lemma inv_handle: "inv s \<Longrightarrow> inv (handle e s)"
  by (cases e)
     (simp_all add: inv_def inv_surface_show inv_queue_show inv_ids_show
        inv_surface_trigger inv_queue_trigger inv_ids_trigger
        inv_surface_userClose inv_queue_userClose inv_ids_userClose
        inv_surface_deactivate inv_queue_deactivate inv_ids_deactivate)

lemma inv_pop:
  assumes "inv s" "timers s = tm # rest"
  shows "inv (s\<lparr> timers := rest, now := d \<rparr>)"
proof -
  have "inv_surface (s\<lparr> timers := rest, now := d \<rparr>)"
    using assms by (simp add: inv_def inv_surface_def doubleDisposals_def)
  moreover have "inv_queue (s\<lparr> timers := rest, now := d \<rparr>)"
    using assms by (auto simp: inv_def inv_queue_def pendingShows_def split: if_splits)
  moreover have "inv_ids (s\<lparr> timers := rest, now := d \<rparr>)"
    using assms by (auto simp: inv_def inv_ids_def)
  ultimately show ?thesis by (simp add: inv_def)
qed

lemma inv_now: "inv s \<Longrightarrow> inv (s\<lparr> now := t \<rparr>)"
  by (simp add: inv_def inv_surface_def inv_queue_def inv_ids_def pendingShows_def
        doubleDisposals_def)

lemma advance_Nil: "timers s = [] \<Longrightarrow> advance t s = s\<lparr> now := t \<rparr>"
  by (simp add: advance.simps)

lemma advance_wait: "timers s = tm # rest \<Longrightarrow> t < due tm \<Longrightarrow> advance t s = s\<lparr> now := t \<rparr>"
  by (simp add: advance.simps)

lemma advance_fire:
  "timers s = tm # rest \<Longrightarrow> due tm \<le> t \<Longrightarrow>
   advance t s = advance t (fire (cb tm) (s\<lparr> timers := rest, now := due tm \<rparr>))"
  by (subst advance.simps) simp

lemma inv_advance: "inv s \<Longrightarrow> inv (advance t s)"
proof (induction t s rule: advance.induct)
  case (1 t s)
  show ?case
  proof (cases "timers s")
    case Nil
    then show ?thesis using 1(2) by (simp add: advance_Nil inv_now)
  next
    case (Cons tm rest)
    show ?thesis
    proof (cases "due tm \<le> t")
      case True
      have "inv (fire (cb tm) (s\<lparr> timers := rest, now := due tm \<rparr>))"
        using 1(2) Cons by (simp add: inv_fire inv_pop)
      with 1(1) [OF Cons True] show ?thesis
        using Cons True by (simp add: advance_fire)
    next
      case False
      then show ?thesis using 1(2) Cons by (simp add: advance_wait inv_now)
    qed
  qed
qed

lemma inv_idle: "inv s \<Longrightarrow> inv (idle d s)"
  by (simp add: idle_def inv_advance)

lemma inv_run: "inv s \<Longrightarrow> inv (run evs s)"
  by (induction evs arbitrary: s) (auto simp: inv_handle inv_idle)

lemma now_advance [simp]: "now (advance t s) = t"
proof (induction t s rule: advance.induct)
  case (1 t s)
  show ?case
  proof (cases "timers s")
    case Nil
    then show ?thesis by (simp add: advance_Nil)
  next
    case (Cons tm rest)
    then show ?thesis
      using 1 by (cases "due tm \<le> t") (simp_all add: advance_fire advance_wait)
  qed
qed


subsection \<open>When a pending show fires\<close>

lemma notifications_update [simp]:
  "notifications (s\<lparr> timers := x \<rparr>) = notifications s"
  "notifications (s\<lparr> now := y \<rparr>) = notifications s"
  by (simp_all add: notifications_def)

lemma pendingShows_update [simp]:
  "pendingShows (s\<lparr> timers := x \<rparr>) = filter (\<lambda>tm. cb tm = ShowCb) x"
  "pendingShows (s\<lparr> now := y \<rparr>) = pendingShows s"
  by (simp_all add: pendingShows_def)

lemma notifications_dispose [simp]: "notifications (dispose p s) = notifications s"
  by (simp add: notifications_def dispose_def onDidDispose_def)

lemma notifications_autoClose [simp]: "notifications (autoClose s) = notifications s"
  by (simp add: autoClose_def notifications_def dispose_def onDidDispose_def split: option.splits)

lemma notifications_show [simp]:
  "notifications (showYouPushedMessage s) = notifications s @ [now s]"
  by (simp add: showYouPushedMessage_def createWebviewPanel_def setTimeout_def Let_def
        notifications_def dispose_def onDidDispose_def split: option.splits)

lemma notifications_trigger [simp]: "notifications (triggerYouPushed s) = notifications s"
  by (simp add: notifications_def)

lemma debounceTimer_fire [simp]: "debounceTimer (fire c s) = debounceTimer s"
  by (cases c) simp_all

lemma debounceTimer_advance [simp]: "debounceTimer (advance t s) = debounceTimer s"
proof (induction t s rule: advance.induct)
  case (1 t s)
  show ?case
  proof (cases "timers s")
    case Nil
    then show ?thesis by (simp add: advance_Nil)
  next
    case (Cons tm rest)
    then show ?thesis
      using 1 by (cases "due tm \<le> t") (simp_all add: advance_fire advance_wait)
  qed
qed

lemma advance_no_show:
  "pendingShows s = [] \<Longrightarrow>
   pendingShows (advance t s) = [] \<and> notifications (advance t s) = notifications s"
proof (induction t s rule: advance.induct)
  case (1 t s)
  show ?case
  proof (cases "timers s")
    case Nil
    then show ?thesis using 1(2) by (simp add: advance_Nil)
  next
    case (Cons tm rest)
    show ?thesis
    proof (cases "due tm \<le> t")
      case True
      from 1(2) Cons have c: "cb tm = AutoCloseCb" and r: "filter (\<lambda>x. cb x = ShowCb) rest = []"
        by (auto simp: pendingShows_def split: if_splits intro: callback.exhaust)
      let ?s' = "fire (cb tm) (s\<lparr> timers := rest, now := due tm \<rparr>)"
      have "pendingShows ?s' = []" using c r by (simp add: pendingShows_def)
      from 1(1) [OF Cons True this] show ?thesis
        using Cons True c by (simp add: advance_fire)
    next
      case False
      then show ?thesis
        using 1(2) Cons by (simp add: advance_wait)
    qed
  qed
qed

lemma advance_before:
  "pendingShows s = [sh] \<Longrightarrow> t < due sh \<Longrightarrow>
   pendingShows (advance t s) = [sh] \<and> notifications (advance t s) = notifications s"
proof (induction t s rule: advance.induct)
  case (1 t s)
  show ?case
  proof (cases "timers s")
    case Nil
    then show ?thesis using 1(2) by (simp add: pendingShows_def)
  next
    case (Cons tm rest)
    show ?thesis
    proof (cases "due tm \<le> t")
      case True
      from 1(2,3) Cons True have c: "cb tm = AutoCloseCb"
        and r: "filter (\<lambda>x. cb x = ShowCb) rest = [sh]"
        by (auto simp: pendingShows_def split: if_splits intro: callback.exhaust)
      let ?s' = "fire (cb tm) (s\<lparr> timers := rest, now := due tm \<rparr>)"
      have "pendingShows ?s' = [sh]" using c r by (simp add: pendingShows_def)
      from 1(1) [OF Cons True this 1(3)] show ?thesis
        using Cons True c by (simp add: advance_fire)
    next
      case False
      then show ?thesis
        using 1(2) Cons by (simp add: advance_wait)
    qed
  qed
qed

lemma advance_show:
  "sorted (map due (timers s)) \<Longrightarrow> pendingShows s = [sh] \<Longrightarrow> due sh \<le> t \<Longrightarrow>
   pendingShows (advance t s) = [] \<and> notifications (advance t s) = notifications s @ [due sh]"
proof (induction t s rule: advance.induct)
  case (1 t s)
  show ?case
  proof (cases "timers s")
    case Nil
    then show ?thesis using 1(3) by (simp add: pendingShows_def)
  next
    case (Cons tm rest)
    have "sh \<in> set (filter (\<lambda>x. cb x = ShowCb) (timers s))"
      using 1(3) by (simp add: pendingShows_def)
    then have "sh \<in> set (timers s)"
      by simp
    then have le: "due tm \<le> t" and srt: "sorted (map due rest)"
      using 1(2,4) Cons by auto
    let ?s' = "fire (cb tm) (s\<lparr> timers := rest, now := due tm \<rparr>)"
    show ?thesis
    proof (cases "cb tm")
      case ShowCb
      with 1(3) Cons have tm: "tm = sh" and r: "filter (\<lambda>x. cb x = ShowCb) rest = []"
        by (auto simp: pendingShows_def)
      have "pendingShows ?s' = []"
        using ShowCb r by (simp add: pendingShows_def filter_enqueue_out)
      from advance_no_show [OF this, of t] show ?thesis
        using Cons le ShowCb tm by (simp add: advance_fire)
    next
      case AutoCloseCb
      with 1(3) Cons have r: "filter (\<lambda>x. cb x = ShowCb) rest = [sh]"
        by (auto simp: pendingShows_def)
      have "pendingShows ?s' = [sh]" "sorted (map due (timers ?s'))"
        using AutoCloseCb r srt by (simp_all add: pendingShows_def)
      from 1(1) [OF Cons le this(2,1) 1(4)] show ?thesis
        using Cons le AutoCloseCb by (simp add: advance_fire)
    qed
  qed
qed


lemma now_idle [simp]: "now (idle d s) = now s + d"
  by (simp add: idle_def)

lemma idle_before:
  "pendingShows s = [sh] \<Longrightarrow> now s + d < due sh \<Longrightarrow>
   pendingShows (idle d s) = [sh] \<and> notifications (idle d s) = notifications s"
  by (simp add: idle_def advance_before)

lemma idle_show:
  "inv s \<Longrightarrow> pendingShows s = [sh] \<Longrightarrow> due sh \<le> now s + d \<Longrightarrow>
   pendingShows (idle d s) = [] \<and> notifications (idle d s) = notifications s @ [due sh]"
  by (simp add: idle_def advance_show inv_def inv_queue_def)

lemma detect_after_idle:
  assumes "inv s"
  shows "inv (triggerYouPushed (idle g s))"
    and "pendingShows (triggerYouPushed (idle g s))
           = [Timer (nextTimerId (idle g s)) (now s + g + 500) ShowCb]"
proof -
  have i: "inv (idle g s)" using assms by (rule inv_idle)
  then show "inv (triggerYouPushed (idle g s))"
    using inv_handle [of "idle g s" Detection] by simp
  from i show "pendingShows (triggerYouPushed (idle g s))
           = [Timer (nextTimerId (idle g s)) (now s + g + 500) ShowCb]"
    using trigger_pending [of "idle g s"] by (simp add: inv_def)
qed

lemma burst_run:
  assumes "inv s" "pendingShows s = [Timer i (now s + 500) ShowCb]" "\<forall>g\<in>set gs. g < 500"
  shows "\<exists>j. pendingShows (run (detectionEvents gs) s)
                = [Timer j (now s + sum_list gs + 500) ShowCb] \<and>
             now (run (detectionEvents gs) s) = now s + sum_list gs \<and>
             notifications (run (detectionEvents gs) s) = notifications s \<and>
             inv (run (detectionEvents gs) s)"
  using assms
proof (induction gs arbitrary: s i)
  case Nil
  then show ?case by (simp add: detectionEvents_def)
next
  case (Cons g gs)
  let ?s1 = "triggerYouPushed (idle g s)"
  have n: "notifications ?s1 = notifications s"
    using idle_before [of s "Timer i (now s + 500) ShowCb" g] Cons.prems by simp
  have "\<exists>j. pendingShows (run (detectionEvents gs) ?s1)
                = [Timer j (now ?s1 + sum_list gs + 500) ShowCb] \<and>
             now (run (detectionEvents gs) ?s1) = now ?s1 + sum_list gs \<and>
             notifications (run (detectionEvents gs) ?s1) = notifications ?s1 \<and>
             inv (run (detectionEvents gs) ?s1)"
    using Cons.prems detect_after_idle [of s g]
    by (intro Cons.IH) simp_all
  then show ?case
    using n by (simp add: detectionEvents_def add.assoc)
qed

lemma sparse_run:
  assumes "inv s" "pendingShows s = [Timer i (now s + 500) ShowCb]" "\<forall>g\<in>set gs. 500 < g"
    "500 \<le> d"
  shows "notifications (idle d (run (detectionEvents gs) s))
           = notifications s @ (now s + 500) # map (\<lambda>t. t + 500) (arrivals (now s) gs)"
  using assms
proof (induction gs arbitrary: s i)
  case Nil
  then show ?case
    using idle_show [of s "Timer i (now s + 500) ShowCb" d] by (simp add: detectionEvents_def)
next
  case (Cons g gs)
  let ?s1 = "triggerYouPushed (idle g s)"
  have n: "notifications ?s1 = notifications s @ [now s + 500]"
    using idle_show [of s "Timer i (now s + 500) ShowCb" g] Cons.prems by simp
  have "notifications (idle d (run (detectionEvents gs) ?s1))
          = notifications ?s1 @ (now ?s1 + 500) # map (\<lambda>t. t + 500) (arrivals (now ?s1) gs)"
    using Cons.prems detect_after_idle [of s g]
    by (intro Cons.IH) simp_all
  then show ?case
    using n by (simp add: detectionEvents_def)
qed

section \<open>The debounce\<close>

text \<open>
  Claim C1. After any history, a call of \<^verbatim>\<open>triggerYouPushed\<close> leaves exactly one show
  pending, due 500ms after the call: what was pending before is cancelled. A burst of
  detection events whose gaps are all below 500ms shows exactly one notification, 500ms
  after the last event of the burst; until then it shows none. The first event of the
  burst comes \<open>g0\<close> after the history, the others follow with the gaps \<open>gs\<close>, and
  \<open>d\<close> is the time waited after the last one.
\<close>

theorem debounce_burst:
  assumes "\<forall>g\<in>set gs. g < 500"
  shows "pendingShows (triggerYouPushed (idle g0 (run evs init)))
           = [Timer (nextTimerId (idle g0 (run evs init))) (now (run evs init) + g0 + 500) ShowCb]
         \<and> notifications (idle d (run ((g0, Detection) # detectionEvents gs) (run evs init)))
           = notifications (idle g0 (run evs init))
             @ (if 500 \<le> d then [now (run evs init) + g0 + sum_list gs + 500] else [])"
proof -
  let ?s = "run evs init"
  let ?s1 = "triggerYouPushed (idle g0 ?s)"
  let ?s2 = "run (detectionEvents gs) ?s1"
  have i: "inv ?s" by (simp add: inv_run inv_init)
  have n1: "notifications ?s1 = notifications (idle g0 ?s)" by simp
  obtain j where p: "pendingShows ?s2 = [Timer j (now ?s1 + sum_list gs + 500) ShowCb]"
    and t: "now ?s2 = now ?s1 + sum_list gs"
    and n2: "notifications ?s2 = notifications ?s1"
    and i2: "inv ?s2"
    using burst_run [of ?s1 "nextTimerId (idle g0 ?s)" gs] detect_after_idle [OF i, of g0] assms
    by auto
  have "notifications (idle d ?s2)
          = notifications ?s2 @ (if 500 \<le> d then [now ?s1 + sum_list gs + 500] else [])"
  proof (cases "500 \<le> d")
    case True
    then show ?thesis using idle_show [OF i2 p, of d] t by simp
  next
    case False
    then show ?thesis using idle_before [OF p, of d] t by simp
  qed
  then show ?thesis using n1 n2 detect_after_idle(2) [OF i, of g0] by simp
qed

theorem debounce_burst_witness:
  "(100::nat) < 500 \<and> (499::nat) < 500 \<and>
   notifications (idle 500 (run [(7, Detection), (100, Detection), (499, Detection)] init)) = [1106]"
  using debounce_burst [of "[100, 499]" 7 "[]" 500]
  by (simp add: detectionEvents_def idle_def advance_Nil init_def notifications_def)

text \<open>
  Claim C2. After any history, detection events whose gaps are all above 500ms show one
  notification each, 500ms after the event.
\<close>

theorem spaced_detections:
  assumes "\<forall>g\<in>set gs. 500 < g" "500 \<le> d"
  shows "notifications (idle d (run ((g0, Detection) # detectionEvents gs) (run evs init)))
           = notifications (idle g0 (run evs init))
             @ map (\<lambda>t. t + 500) (arrivals (now (run evs init)) (g0 # gs))
         \<and> length (arrivals (now (run evs init)) (g0 # gs)) = Suc (length gs)"
proof -
  let ?s = "run evs init"
  let ?s1 = "triggerYouPushed (idle g0 ?s)"
  have i: "inv ?s" by (simp add: inv_run inv_init)
  have len: "length (arrivals t xs) = length xs" for t xs
    by (induction xs arbitrary: t) simp_all
  have "notifications (idle d (run (detectionEvents gs) ?s1))
          = notifications ?s1 @ (now ?s1 + 500) # map (\<lambda>t. t + 500) (arrivals (now ?s1) gs)"
    using sparse_run [of ?s1 "nextTimerId (idle g0 ?s)" gs d] detect_after_idle [OF i, of g0] assms
    by simp
  then show ?thesis by (simp add: len)
qed

theorem spaced_detections_witness:
  "(500::nat) < 501 \<and> (500::nat) < 4000 \<and> (500::nat) \<le> 500 \<and>
   notifications (idle 500 (run [(7, Detection), (501, Detection), (4000, Detection)] init))
     = [507, 1008, 5008]"
  using spaced_detections [of "[501, 4000]" 500 7 "[]"]
  by (simp add: detectionEvents_def idle_def advance_Nil init_def notifications_def)

section \<open>The notification panel\<close>

lemmas model_defs = idle_def init_def triggerYouPushed_def setTimeout_def clearTimeout_def
  showYouPushedMessage_def createWebviewPanel_def autoClose_def dispose_def onDidDispose_def
  userClose_def deactivate_def Let_def

lemma inv_reach: "inv (idle d (run evs init))"
  by (simp add: inv_idle inv_run inv_init)

lemma show_trace:
  assumes "inv_surface s"
  shows "trace (showYouPushedMessage s)
           = trace s @ (case currentPanel s of Some p \<Rightarrow> [Disposed p (now s)] | None \<Rightarrow> [])
             @ [Created (nextPanelId s) (now s)]"
    and "livePanels (showYouPushedMessage s) = [nextPanelId s]"
  using assms
  by (auto simp: inv_surface_def showYouPushedMessage_def createWebviewPanel_def setTimeout_def
        dispose_def onDidDispose_def Let_def split: option.splits)

text \<open>
  Claim C3. In every run, at every moment of it, at most one panel is alive: no prefix of
  the trace has more than one panel created and not yet disposed. When
  \<^verbatim>\<open>showYouPushedMessage\<close> is called while a panel is alive, it disposes that panel
  first and creates the new one after.
\<close>

theorem at_most_one_surface:
  "length (livePanels (idle d (run evs init))) \<le> 1 \<and>
   (\<forall>k. live_count (take k (trace (idle d (run evs init)))) \<le> 1) \<and>
   trace (showYouPushedMessage (idle d (run evs init)))
     = trace (idle d (run evs init))
       @ (case currentPanel (idle d (run evs init)) of
            Some p \<Rightarrow> [Disposed p (now (idle d (run evs init)))] | None \<Rightarrow> [])
       @ [Created (nextPanelId (idle d (run evs init))) (now (idle d (run evs init)))] \<and>
   livePanels (showYouPushedMessage (idle d (run evs init)))
     = [nextPanelId (idle d (run evs init))]"
proof -
  let ?s = "idle d (run evs init)"
  have i: "inv_surface ?s" using inv_reach [of d evs] by (simp add: inv_def)
  have "length (livePanels ?s) \<le> 1"
    using i by (simp add: inv_surface_def split: option.splits)
  moreover have "\<forall>k. live_count (take k (trace ?s)) \<le> 1"
    using i by (simp add: inv_surface_def peak_ok_def)
  ultimately show ?thesis
    using show_trace [OF i] by simp
qed

text \<open>
  Claim C4, evaluated where it fails. Two pushes three seconds apart: the first panel is
  shown at 500 and replaced at 3500 by the second. The timer set for the first panel is
  never cleared; it fires at 5500 and closes \<^verbatim>\<open>currentPanel\<close>, which is the second
  panel by then, 2000ms after it was shown. The test command run twice, three seconds
  apart, does the same.
\<close>

theorem stale_timer_closes_later_panel:
  "trace (idle 2500 (run [(0, Detection), (3000, Detection)] init))
     = [Created 0 500, Disposed 0 3500, Created 1 3500, Disposed 1 5500] \<and>
   trace (idle 2000 (run [(0, TestCommand), (3000, TestCommand)] init))
     = [Created 0 0, Disposed 0 3000, Created 1 3000, Disposed 1 5000]"
  by (simp add: model_defs advance.simps)

lemma userClose_clears:
  "inv_surface s \<Longrightarrow> currentPanel (userClose s) = None \<and> livePanels (userClose s) = []"
  by (auto simp: inv_surface_def userClose_def dispose_def onDidDispose_def
        split: option.splits list.splits)

lemma close_scenario:
  assumes "t < 5000"
  shows "run [(g0, TestCommand), (t, UserClose)] init
           = init\<lparr> now := g0 + t, timers := [Timer 0 (g0 + 5000) AutoCloseCb],
                   nextTimerId := 1, nextPanelId := 1,
                   trace := [Created 0 g0, Disposed 0 (g0 + t)] \<rparr>"
  using assms by (simp add: model_defs advance.simps)

text \<open>
  Claim C5. The user closes a panel \<open>t\<close> after it was shown, with \<open>t\<close> below 5000ms.
  The dispose listener clears \<^verbatim>\<open>currentPanel\<close>; the timer of the panel stays pending,
  fires at 5000ms and does nothing: the trace holds the panel's creation and its one
  disposal. In every run, closing by the user leaves \<^verbatim>\<open>currentPanel\<close> cleared, and the
  source never calls \<^verbatim>\<open>dispose\<close> on a panel already disposed.
\<close>

theorem external_close_then_timer:
  assumes "t < 5000"
  shows "currentPanel (run [(g0, TestCommand), (t, UserClose)] init) = None \<and>
         trace (idle d (run [(g0, TestCommand), (t, UserClose)] init))
           = [Created 0 g0, Disposed 0 (g0 + t)] \<and>
         timers (idle d (run [(g0, TestCommand), (t, UserClose)] init))
           = (if 5000 \<le> t + d then [] else [Timer 0 (g0 + 5000) AutoCloseCb]) \<and>
         currentPanel (userClose (idle d' (run evs init))) = None \<and>
         doubleDisposals (idle d' (run evs init)) = []"
proof -
  have "inv_surface (idle d' (run evs init))"
    using inv_reach [of d' evs] by (simp add: inv_def)
  then have g: "currentPanel (userClose (idle d' (run evs init))) = None"
    "doubleDisposals (idle d' (run evs init)) = []"
    by (simp_all add: userClose_clears inv_surface_def)
  let ?s1 = "run [(g0, TestCommand), (t, UserClose)] init"
  have c: "currentPanel ?s1 = None"
    unfolding close_scenario [OF assms] by (simp add: init_def)
  have "trace (idle d ?s1) = [Created 0 g0, Disposed 0 (g0 + t)] \<and>
        timers (idle d ?s1) = (if 5000 \<le> t + d then [] else [Timer 0 (g0 + 5000) AutoCloseCb])"
  proof (cases "5000 \<le> t + d")
    case True
    then show ?thesis
      unfolding close_scenario [OF assms]
      by (simp add: idle_def init_def advance.simps autoClose_def)
  next
    case False
    then show ?thesis
      unfolding close_scenario [OF assms]
      by (simp add: idle_def init_def advance.simps)
  qed
  with c g show ?thesis by blast
qed

theorem external_close_then_timer_witness:
  "(1200::nat) < 5000 \<and>
   trace (idle 9000 (run [(40, TestCommand), (1200, UserClose)] init))
     = [Created 0 40, Disposed 0 1240] \<and>
   timers (idle 9000 (run [(40, TestCommand), (1200, UserClose)] init)) = [] \<and>
   doubleDisposals (idle 100 (run [(0, Detection), (700, UserClose), (4900, TestCommand)] init)) = []"
  using external_close_then_timer [of 1200 40 9000 100 "[(0, Detection), (700, UserClose), (4900, TestCommand)]"]
  by simp

text \<open>
  Claim C8, as stated, fails: \<^verbatim>\<open>deactivate\<close> clears the debounce timer, and the handle
  of the auto-close timer is kept nowhere. After a show and a shutdown the auto-close
  timer is still pending, and it fires.
\<close>

theorem shutdown_keeps_auto_close_timer:
  "pendingAutoClose (run [(0, TestCommand), (1000, Shutdown)] init) = [Timer 0 5000 AutoCloseCb]
   \<and> timers (idle 4000 (run [(0, TestCommand), (1000, Shutdown)] init)) = []"
  by (simp add: model_defs advance.simps pendingAutoClose_def)

lemma advance_quiet:
  "currentPanel s = None \<Longrightarrow> pendingShows s = [] \<Longrightarrow> trace (advance t s) = trace s"
proof (induction t s rule: advance.induct)
  case (1 t s)
  show ?case
  proof (cases "timers s")
    case Nil
    then show ?thesis by (simp add: advance_Nil)
  next
    case (Cons tm rest)
    show ?thesis
    proof (cases "due tm \<le> t")
      case True
      from 1(3) Cons have c: "cb tm = AutoCloseCb" and r: "filter (\<lambda>x. cb x = ShowCb) rest = []"
        by (auto simp: pendingShows_def split: if_splits intro: callback.exhaust)
      let ?s' = "fire (cb tm) (s\<lparr> timers := rest, now := due tm \<rparr>)"
      have "currentPanel ?s' = None" "pendingShows ?s' = []"
        using c r by (simp_all add: pendingShows_def)
      from 1(1) [OF Cons True this] show ?thesis
        using Cons True c 1(2) by (simp add: advance_fire autoClose_def)
    next
      case False
      then show ?thesis
        using Cons by (simp add: advance_wait)
    qed
  qed
qed

lemma deactivate_surface:
  assumes "inv_surface s"
  shows "livePanels (deactivate s) = []" "currentPanel (deactivate s) = None"
    "trace (deactivate s)
       = trace s @ (case currentPanel s of Some p \<Rightarrow> [Disposed p (now s)] | None \<Rightarrow> [])"
  using assms
  by (auto simp: inv_surface_def deactivate_def clearTimeout_def dispose_def onDidDispose_def
        Let_def split: option.splits)

lemma deactivate_keeps_auto_close:
  assumes "inv_ids s"
  shows "pendingAutoClose (deactivate s) = pendingAutoClose s"
proof (cases "debounceTimer s")
  case None
  then show ?thesis by (simp add: pendingAutoClose_def)
next
  case (Some i)
  have "filter (\<lambda>tm. tid tm \<noteq> i \<and> cb tm = AutoCloseCb) (timers s)
          = filter (\<lambda>tm. cb tm = AutoCloseCb) (timers s)"
    using assms Some by (intro filter_cong) (auto simp: inv_ids_def)
  with Some show ?thesis by (simp add: pendingAutoClose_def)
qed

text \<open>
  Claim C8, amended. In every run, \<^verbatim>\<open>deactivate\<close> disposes the panel that is alive, if
  any, and cancels the pending debounce timer, if any, so that no notification is shown
  after shutdown. It leaves the auto-close timers pending; when they fire after shutdown
  they find no panel and do nothing.
\<close>

theorem shutdown_disposal:
  "livePanels (deactivate (idle d (run evs init))) = [] \<and>
   currentPanel (deactivate (idle d (run evs init))) = None \<and>
   trace (deactivate (idle d (run evs init)))
     = trace (idle d (run evs init))
       @ (case currentPanel (idle d (run evs init)) of
            Some p \<Rightarrow> [Disposed p (now (idle d (run evs init)))] | None \<Rightarrow> []) \<and>
   pendingShows (deactivate (idle d (run evs init))) = [] \<and>
   pendingAutoClose (deactivate (idle d (run evs init)))
     = pendingAutoClose (idle d (run evs init)) \<and>
   trace (idle d' (deactivate (idle d (run evs init))))
     = trace (deactivate (idle d (run evs init)))"
proof -
  let ?s = "idle d (run evs init)"
  have i: "inv_surface ?s" "inv_queue ?s" "inv_ids ?s"
    using inv_reach [of d evs] by (simp_all add: inv_def)
  have q: "pendingShows (deactivate ?s) = []"
    using i(2) by (rule deactivate_pending)
  have "trace (idle d' (deactivate ?s)) = trace (deactivate ?s)"
    using deactivate_surface(2) [OF i(1)] q by (simp add: idle_def advance_quiet)
  then show ?thesis
    using deactivate_surface [OF i(1)] q deactivate_keeps_auto_close [OF i(3)] by simp
qed

section \<open>Activation and the registered commands\<close>

lemma runtime_update [simp]:
  "runtime (s\<lparr> commands := a \<rparr>) = runtime s"
  "runtime (s\<lparr> watchers := b \<rparr>) = runtime s"
  "runtime (s\<lparr> stateListeners := c \<rparr>) = runtime s"
  "runtime (s\<lparr> operationListeners := d \<rparr>) = runtime s"
  "runtime (s\<lparr> gitCommandListeners := e \<rparr>) = runtime s"
  "runtime (s\<lparr> openRepositoryListener := f \<rparr>) = runtime s"
  "runtime (s\<lparr> console := g \<rparr>) = runtime s"
  by (simp_all add: runtime_def)

lemma log_frame [simp]:
  "runtime (log msg s) = runtime s" "commands (log msg s) = commands s"
  "watchers (log msg s) = watchers s" "stateListeners (log msg s) = stateListeners s"
  "operationListeners (log msg s) = operationListeners s"
  "gitCommandListeners (log msg s) = gitCommandListeners s"
  "openRepositoryListener (log msg s) = openRepositoryListener s"
  "console (log msg s) = console s @ [msg]"
  by (simp_all add: log_def)

lemma registerCommand_frame [simp]:
  "runtime (registerCommand name h s) = runtime s"
  "commands (registerCommand name h s) = commands s @ [(name, h)]"
  "watchers (registerCommand name h s) = watchers s"
  "stateListeners (registerCommand name h s) = stateListeners s"
  "operationListeners (registerCommand name h s) = operationListeners s"
  "gitCommandListeners (registerCommand name h s) = gitCommandListeners s"
  "openRepositoryListener (registerCommand name h s) = openRepositoryListener s"
  by (simp_all add: registerCommand_def)

lemma registerWrappers_frame [simp]:
  "runtime (registerWrappers cs s) = runtime s"
  "commands (registerWrappers cs s) = commands s @ map (\<lambda>c. (wrapName c, WrapHandler c)) cs"
  "watchers (registerWrappers cs s) = watchers s"
  "stateListeners (registerWrappers cs s) = stateListeners s"
  "operationListeners (registerWrappers cs s) = operationListeners s"
  "gitCommandListeners (registerWrappers cs s) = gitCommandListeners s"
  "openRepositoryListener (registerWrappers cs s) = openRepositoryListener s"
  by (induction cs arbitrary: s; simp)+

lemma watchFolders_frame [simp]:
  "runtime (watchFolders env fs s) = runtime s"
  "commands (watchFolders env fs s) = commands s"
  "watchers (watchFolders env fs s)
     = watchers s @ filter (\<lambda>f. existsSync env (remotesPath env f)) fs"
  "stateListeners (watchFolders env fs s) = stateListeners s"
  "operationListeners (watchFolders env fs s) = operationListeners s"
  "gitCommandListeners (watchFolders env fs s) = gitCommandListeners s"
  "openRepositoryListener (watchFolders env fs s) = openRepositoryListener s"
  by (induction fs arbitrary: s; simp)+

lemma setupGitPushWatcher_frame [simp]:
  "runtime (setupGitPushWatcher env s) = runtime s"
  "commands (setupGitPushWatcher env s) = commands s"
  "watchers (setupGitPushWatcher env s)
     = watchers s @ (case workspaceFolders env of None \<Rightarrow> []
                     | Some fs \<Rightarrow> filter (\<lambda>f. existsSync env (remotesPath env f)) fs)"
  "stateListeners (setupGitPushWatcher env s) = stateListeners s"
  "operationListeners (setupGitPushWatcher env s) = operationListeners s"
  "gitCommandListeners (setupGitPushWatcher env s) = gitCommandListeners s"
  "openRepositoryListener (setupGitPushWatcher env s) = openRepositoryListener s"
  by (simp_all add: setupGitPushWatcher_def split: option.splits)

lemma watchRepository_frame [simp]:
  "runtime (watchRepository repo s) = runtime s"
  "commands (watchRepository repo s) = commands s"
  "watchers (watchRepository repo s) = watchers s"
  by (simp_all add: watchRepository_def Let_def)

lemma fold_watchRepository_frame [simp]:
  "runtime (fold watchRepository api s) = runtime s"
  "commands (fold watchRepository api s) = commands s"
  "watchers (fold watchRepository api s) = watchers s"
  by (induction api arbitrary: s; simp)+

lemma setupGitExtensionListener_frame [simp]:
  "runtime (snd (setupGitExtensionListener env s)) = runtime s"
  "commands (snd (setupGitExtensionListener env s)) = commands s"
  "watchers (snd (setupGitExtensionListener env s)) = watchers s"
  by (simp_all add: setupGitExtensionListener_def split: option.splits sum.splits)


lemma activate_frame [simp]:
  "runtime (activate env s) = runtime s"
  "commands (activate env s)
     = commands s @ (''you-pushed.test'', TestHandler)
         # map (\<lambda>c. (wrapName c, WrapHandler c)) pushCommands"
  "watchers (activate env s)
     = watchers s @ (case workspaceFolders env of None \<Rightarrow> []
                     | Some fs \<Rightarrow> filter (\<lambda>f. existsSync env (remotesPath env f)) fs)"
  by (simp_all add: activate_def setupGitCommandHooks_def Let_def)

lemma runtime_fields:
  assumes "runtime s' = runtime s"
  shows "now s' = now s" "currentPanel s' = currentPanel s" "debounceTimer s' = debounceTimer s"
    "timers s' = timers s" "nextTimerId s' = nextTimerId s" "nextPanelId s' = nextPanelId s"
    "livePanels s' = livePanels s" "trace s' = trace s" "detections s' = detections s"
  using assms by (simp_all add: runtime_def)



lemma commands_fire [simp]: "commands (fire c s) = commands s"
  by (cases c) simp_all

lemma commands_advance [simp]: "commands (advance t s) = commands s"
proof (induction t s rule: advance.induct)
  case (1 t s)
  show ?case
  proof (cases "timers s")
    case Nil
    then show ?thesis by (simp add: advance_Nil)
  next
    case (Cons tm rest)
    then show ?thesis
      using 1 by (cases "due tm \<le> t") (simp_all add: advance_fire advance_wait)
  qed
qed

lemma commands_handle [simp]: "commands (handle e s) = commands s"
  by (cases e) simp_all

lemma commands_run [simp]: "commands (run evs s) = commands s"
  by (induction evs arbitrary: s) (auto simp: idle_def)

lemma wrapName_inj [simp]: "(wrapName a = wrapName b) = (a = b)"
  by (simp add: wrapName_def)

lemma test_not_wrapped [simp]:
  "''you-pushed.test'' \<noteq> wrapName c" "wrapName c \<noteq> ''you-pushed.test''"
  by (simp_all add: wrapName_def)

lemma map_of_wrappers:
  "c \<in> set cs \<Longrightarrow> map_of (map (\<lambda>c. (wrapName c, WrapHandler c)) cs) (wrapName c) = Some (WrapHandler c)"
  by (induction cs) auto

lemma invoke_wrapper:
  assumes "c \<in> set pushCommands" "commands s = commands (activate env init)"
  shows "invoke exec (wrapName c) args s = Some (wrapper exec c args s)"
  using assms map_of_wrappers [of c pushCommands]
  by (simp add: invoke_def init_def)

text \<open>
  Claim C6. A wrapper command of an activated extension, invoked in any later state with
  any arguments: when the wrapped command succeeds, the wrapper calls
  \<^verbatim>\<open>triggerYouPushed\<close> once, which is one detection event; when it fails, the wrapper
  returns the same error, counts no detection and leaves the timers, the panels and the
  trace as they were.
\<close>

theorem wrapped_command_outcome:
  assumes "commandId \<in> set pushCommands"
  shows "\<exists>res s'. invoke exec (wrapName commandId) args (idle d (run evs (activate env init)))
                    = Some (res, s') \<and>
           (case exec commandId args of
              Inr r \<Rightarrow> res = Inr () \<and> s' = triggerYouPushed (idle d (run evs (activate env init)))
                       \<and> detections s' = Suc (detections (idle d (run evs (activate env init))))
            | Inl err \<Rightarrow> res = Inl err
                       \<and> detections s' = detections (idle d (run evs (activate env init)))
                       \<and> runtime s' = runtime (idle d (run evs (activate env init))))"
proof -
  let ?s = "idle d (run evs (activate env init))"
  have "commands ?s = commands (activate env init)" by (simp add: idle_def)
  from invoke_wrapper [OF assms this, of exec args]
  show ?thesis
    by (cases "exec commandId args") (simp_all add: wrapper_def runtime_fields [of "log _ _"])
qed

theorem wrapped_command_outcome_witness:
  "''git.push'' \<in> set pushCommands \<and> ''git.sync'' \<in> set pushCommands \<and>
   invoke settles (wrapName ''git.push'') [''origin''] (idle 0 (run [] (activate noWorkspace init)))
     = Some (Inr (), triggerYouPushed (idle 0 (run [] (activate noWorkspace init)))) \<and>
   map_option fst (invoke settles (wrapName ''git.sync'') [''origin'']
      (idle 0 (run [] (activate noWorkspace init)))) = Some (Inl ''rejected'')"
  using wrapped_command_outcome [of "''git.push''" settles "[''origin'']" 0 "[]" noWorkspace]
    wrapped_command_outcome [of "''git.sync''" settles "[''origin'']" 0 "[]" noWorkspace]
  by (auto simp: pushCommands_def settles_def)

text \<open>
  Claim C7, as stated, fails: the source wraps \<^verbatim>\<open>git.push\<close> as well, which the
  enumeration leaves out.
\<close>

theorem plain_push_is_wrapped_too:
  "set (map snd (wrapperCommands (activate noWorkspace init))) \<noteq> set specPushLike"
proof -
  have "''git.push'' \<in> set (map snd (wrapperCommands (activate noWorkspace init)))"
    by (simp add: wrapperCommands_def init_def pushCommands_def)
  moreover have "''git.push'' \<notin> set specPushLike"
    by (simp add: specPushLike_def)
  ultimately show ?thesis by blast
qed

lemma wrapped_wrappers:
  "concat (map (wrapped \<circ> (\<lambda>c. (wrapName c, WrapHandler c))) cs) = map (\<lambda>c. (wrapName c, c)) cs"
  by (induction cs) simp_all

lemma distinct_wrappers: "distinct cs \<Longrightarrow> distinct (map wrapName cs)"
  by (simp add: distinct_map inj_on_def)

text \<open>
  Claim C7, amended. Activation registers exactly seven wrapper commands: the one for plain
  push and those for the six ids of the enumeration, each under
  \<^verbatim>\<open>you-pushed.wrap.\<close> followed by the wrapped id, all distinct from each other and
  from the test command. Invoking a wrapper executes the command of the wrapped id with
  the arguments it was given.
\<close>

theorem wrapper_commands_registered:
  "wrapperCommands (activate env init) = map (\<lambda>c. (wrapName c, c)) pushCommands \<and>
   map snd (wrapperCommands (activate env init)) = ''git.push'' # specPushLike \<and>
   distinct (map fst (commands (activate env init))) \<and>
   (\<forall>c \<in> set pushCommands.
      invoke exec (wrapName c) args (activate env init)
        = Some (case exec c args of
                  Inr r \<Rightarrow> (Inr (), triggerYouPushed (activate env init))
                | Inl err \<Rightarrow> (Inl err, log (''Git command '' @ c @ '' failed: '' @ err)
                                        (activate env init))))"
proof -
  have w: "wrapperCommands (activate env init) = map (\<lambda>c. (wrapName c, c)) pushCommands"
    by (simp add: wrapperCommands_def init_def wrapped_wrappers)
  have "map snd (map (\<lambda>c. (wrapName c, c)) pushCommands) = ''git.push'' # specPushLike"
    by (simp add: pushCommands_def specPushLike_def)
  with w have l: "map snd (wrapperCommands (activate env init)) = ''git.push'' # specPushLike"
    by simp
  have "distinct pushCommands"
    by (simp add: pushCommands_def)
  then have d: "distinct (map fst (commands (activate env init)))"
    using distinct_wrappers [of pushCommands]
    by (auto simp: init_def comp_def)
  have "invoke exec (wrapName c) args (activate env init)
          = Some (case exec c args of
                    Inr r \<Rightarrow> (Inr (), triggerYouPushed (activate env init))
                  | Inl err \<Rightarrow> (Inl err, log (''Git command '' @ c @ '' failed: '' @ err)
                                          (activate env init)))"
    if "c \<in> set pushCommands" for c
    using invoke_wrapper [OF that, of "activate env init" env exec args]
    by (simp add: wrapper_def)
  with w l d show ?thesis by blast
qed

theorem wrapper_commands_registered_witness:
  "''git.syncRebase'' \<in> set pushCommands \<and>
   invoke settles (wrapName ''git.syncRebase'') [''--force''] (activate repoWithoutGit init)
     = Some (Inl ''rejected'',
             log ''Git command git.syncRebase failed: rejected'' (activate repoWithoutGit init))"
  using wrapper_commands_registered [of repoWithoutGit settles "[''--force'']"]
  by (auto simp: pushCommands_def settles_def)







text \<open>
  Claim C10. With no workspace folder open, \<^verbatim>\<open>setupGitPushWatcher\<close> returns at once and
  changes nothing; activation registers no watcher, and it registers the test command
  and the seven wrapper commands.
\<close>

theorem no_workspace_folder:
  assumes "workspaceFolders env = None"
  shows "setupGitPushWatcher env s = s \<and>
         watchers (activate env init) = [] \<and>
         commands (activate env init)
           = (''you-pushed.test'', TestHandler) # map (\<lambda>c. (wrapName c, WrapHandler c)) pushCommands \<and>
         runtime (activate env init) = runtime init"
  using assms by (simp add: setupGitPushWatcher_def init_def)

theorem no_workspace_folder_witness:
  "workspaceFolders noWorkspace = None \<and>
   watchers (activate noWorkspace init) = [] \<and>
   map fst (commands (activate noWorkspace init))
     = [''you-pushed.test'', ''you-pushed.wrap.git.push'', ''you-pushed.wrap.git.pushForce'',
        ''you-pushed.wrap.git.pushTo'', ''you-pushed.wrap.git.pushWithTags'',
        ''you-pushed.wrap.git.sync'', ''you-pushed.wrap.git.syncRebase'',
        ''you-pushed.wrap.git.publish'']"
  using no_workspace_folder [of noWorkspace init]
  by (simp add: noWorkspace_def pushCommands_def wrapName_def)

end
